theory Spec2Isabelle
  imports Main "HOL-Library.Sublist" "HOL-Library.Multiset"
begin

section \<open>The node model (types of \<^verbatim>\<open>NoteNode\<close>)\<close>

text \<open>
  \<^verbatim>\<open>NoteNode\<close> is an interface with flat fields and a \<^verbatim>\<open>children: NoteNode[]\<close> array.
  The flat fields are the record \<open>attrs\<close> (optional fields are options, \<open>None\<close> for
  \<^verbatim>\<open>undefined\<close>); a node is its flat fields together with its children, so that the
  object spread \<^verbatim>\<open>{ ...n, children: cs }\<close> is \<open>Node (attrs n) cs\<close> and
  \<^verbatim>\<open>{ ...n, content, updatedAt }\<close> is \<open>Node ((attrs n)\<lparr>content := c, updatedAt := t\<rparr>) (children n)\<close>.
  The field \<^verbatim>\<open>id\<close> is called \<open>nid\<close> (the name \<open>id\<close> is the identity function of HOL),
  the field \<^verbatim>\<open>style.size\<close> is \<open>fsize\<close>. Dates are natural numbers (milliseconds); every
  \<^verbatim>\<open>new Date()\<close> of the source is a parameter \<open>now\<close>, every \<^verbatim>\<open>uuidv4()\<close> a parameter \<open>newId\<close>.
  Strings are lists of 8-bit characters.
\<close>

datatype fontSize = Sm | Base | Lg | Xl

record style =
  bold :: "bool option"
  italic :: "bool option"
  underline :: "bool option"
  fsize :: "fontSize option"

record attrs =
  nid :: string
  content :: string
  parentId :: "string option"
  isChecklist :: "bool option"
  checked :: "bool option"
  style :: "style option"
  collapsed :: "bool option"
  createdAt :: nat
  updatedAt :: nat

datatype node = Node (attrs: attrs) (children: "node list")

abbreviation idOf :: "node \<Rightarrow> string" where
  "idOf n \<equiv> nid (attrs n)"

text \<open>JavaScript truthiness of an optional string: \<^verbatim>\<open>undefined\<close>, \<^verbatim>\<open>null\<close> and \<^verbatim>\<open>''\<close> are falsy.\<close>

fun truthy :: "string option \<Rightarrow> bool" where
  "truthy None = False"
| "truthy (Some s) = (s \<noteq> [])"

text \<open>\<^verbatim>\<open>Array.prototype.findIndex\<close>: the first index satisfying the predicate; \<open>None\<close> is \<^verbatim>\<open>-1\<close>.\<close>

fun findIndex :: "('a \<Rightarrow> bool) \<Rightarrow> 'a list \<Rightarrow> nat option" where
  "findIndex P [] = None"
| "findIndex P (x # xs) = (if P x then Some 0 else map_option Suc (findIndex P xs))"

section \<open>Tree mutation engine\<close>

text \<open>\<^verbatim>\<open>updateNodeContent\<close> (NotesEditor.tsx, lines 248-258).\<close>

function updateNodeContent :: "string \<Rightarrow> string \<Rightarrow> nat \<Rightarrow> node list \<Rightarrow> node list" where
  "updateNodeContent nodeId c now nodeList =
     map (\<lambda>node.
        if idOf node = nodeId
          then Node ((attrs node)\<lparr>content := c, updatedAt := now\<rparr>) (children node)
        else if length (children node) > 0
          then Node (attrs node) (updateNodeContent nodeId c now (children node))
        else node) nodeList"
  by pat_completeness auto
termination
proof -
  have "size_list size (children x) < size_list size xs" if "x \<in> set xs" for x :: node and xs
  proof -
    have "size_list size (children x) < size x"
      by (cases x) simp
    also have "size x \<le> size_list size xs"
      using that by (rule size_list_estimation') simp
    finally show ?thesis .
  qed
  then show ?thesis
    by (relation "measure (\<lambda>(_, _, _, l). size_list size l)") auto
qed

text \<open>\<^verbatim>\<open>deleteNode\<close> (lines 286-296): filter this level, then recurse into every survivor.\<close>

function deleteNode :: "string \<Rightarrow> node list \<Rightarrow> node list" where
  "deleteNode nodeId nodes =
     map (\<lambda>node. Node (attrs node) (deleteNode nodeId (children node)))
       (filter (\<lambda>n. idOf n \<noteq> nodeId) nodes)"
  by pat_completeness auto
termination
proof -
  have "size_list size (children x) < size_list size xs" if "x \<in> set xs" for x :: node and xs
  proof -
    have "size_list size (children x) < size x"
      by (cases x) simp
    also have "size x \<le> size_list size xs"
      using that by (rule size_list_estimation') simp
    finally show ?thesis .
  qed
  then show ?thesis
    by (relation "measure (\<lambda>(_, l). size_list size l)") auto
qed

text \<open>
  \<^verbatim>\<open>indentNode\<close> (lines 298-320). \<^verbatim>\<open>splice(index, 1)\<close> removes the element at \<open>index\<close>;
  the assignment to \<^verbatim>\<open>newNodes[index - 1]\<close> is a list update (in range, since \<open>index > 0\<close>).
  The parameter \<^verbatim>\<open>parentNodes\<close> of the source is never read and is left out.
\<close>

function findAndIndent :: "string \<Rightarrow> node list \<Rightarrow> node list" where
  "findAndIndent nodeId nodes =
     (case findIndex (\<lambda>n. idOf n = nodeId) nodes of
        Some index \<Rightarrow>
          if index > 0 then
            (let nodeToIndent = nodes ! index;
                 previousNode = nodes ! (index - 1);
                 newNodes = take index nodes @ drop (Suc index) nodes
             in newNodes[index - 1 :=
                  Node (attrs previousNode)
                    (children previousNode @
                      [Node ((attrs nodeToIndent)\<lparr>parentId := Some (idOf previousNode)\<rparr>)
                         (children nodeToIndent)])])
          else map (\<lambda>node. Node (attrs node) (findAndIndent nodeId (children node))) nodes
      | None \<Rightarrow> map (\<lambda>node. Node (attrs node) (findAndIndent nodeId (children node))) nodes)"
  by pat_completeness auto
termination
proof -
  have "size_list size (children x) < size_list size xs" if "x \<in> set xs" for x :: node and xs
  proof -
    have "size_list size (children x) < size x"
      by (cases x) simp
    also have "size x \<le> size_list size xs"
      using that by (rule size_list_estimation') simp
    finally show ?thesis .
  qed
  then show ?thesis
    by (relation "measure (\<lambda>(_, l). size_list size l)") auto
qed

definition indentNode :: "string \<Rightarrow> node list \<Rightarrow> node list" where
  "indentNode nodeId nodeList = findAndIndent nodeId nodeList"

text \<open>
  \<^verbatim>\<open>insertAfterNode\<close> (lines 355-371). \<^verbatim>\<open>splice(index + 1, 0, newNode)\<close> inserts
  \<open>newNode\<close> at position \<open>index + 1\<close>.
\<close>

function insertInList :: "string \<Rightarrow> node \<Rightarrow> node list \<Rightarrow> node list" where
  "insertInList afterNodeId newNode nodes =
     (case findIndex (\<lambda>n. idOf n = afterNodeId) nodes of
        Some index \<Rightarrow> take (index + 1) nodes @ newNode # drop (index + 1) nodes
      | None \<Rightarrow> map (\<lambda>node. Node (attrs node) (insertInList afterNodeId newNode (children node))) nodes)"
  by pat_completeness auto
termination
proof -
  have "size_list size (children x) < size_list size xs" if "x \<in> set xs" for x :: node and xs
  proof -
    have "size_list size (children x) < size x"
      by (cases x) simp
    also have "size x \<le> size_list size xs"
      using that by (rule size_list_estimation') simp
    finally show ?thesis .
  qed
  then show ?thesis
    by (relation "measure (\<lambda>(_, _, l). size_list size l)") auto
qed

definition insertAfterNode :: "string \<Rightarrow> node \<Rightarrow> node list \<Rightarrow> node list" where
  "insertAfterNode afterNodeId newNode nodeList = insertInList afterNodeId newNode nodeList"

text \<open>
  \<^verbatim>\<open>findParentId\<close> (lines 583-590). \<^verbatim>\<open>return parentId || null\<close> and \<^verbatim>\<open>if (found)\<close>
  test truthiness, so an empty string counts as absent.
\<close>

function findParentId :: "node list \<Rightarrow> string \<Rightarrow> string option \<Rightarrow> string option" where
  "findParentId [] targetId parent = None"
| "findParentId (n # ns) targetId parent =
     (if idOf n = targetId then (if truthy parent then parent else None)
      else (let found = findParentId (children n) targetId (Some (idOf n))
            in if truthy found then found else findParentId ns targetId parent))"
  by pat_completeness auto
termination
proof -
  have "size_list size (children x) < Suc (size x + k)" for x :: node and k
    by (cases x) simp
  then show ?thesis
    by (relation "measure (\<lambda>(l, _, _). size_list size l)") auto
qed

text \<open>\<^verbatim>\<open>findNodeById\<close> (lines 592-599).\<close>

function findNodeById :: "node list \<Rightarrow> string \<Rightarrow> node option" where
  "findNodeById [] targetId = None"
| "findNodeById (n # ns) targetId =
     (if idOf n = targetId then Some n
      else (case findNodeById (children n) targetId of
              Some found \<Rightarrow> Some found
            | None \<Rightarrow> findNodeById ns targetId))"
  by pat_completeness auto
termination
proof -
  have "size_list size (children x) < Suc (size x + k)" for x :: node and k
    by (cases x) simp
  then show ?thesis
    by (relation "measure (\<lambda>(l, _). size_list size l)") auto
qed

text \<open>
  \<^verbatim>\<open>outdentNode\<close> (lines 322-353). \<^verbatim>\<open>removeNode\<close> is a loop over the indices of \<open>list\<close>
  with two early returns; the recursion below walks the same elements in the same order and
  rebuilds \<^verbatim>\<open>[...list.slice(0, i), ..., ...list.slice(i + 1)]\<close> by consing the skipped
  prefix back. The result is the triple \<^verbatim>\<open>{ updated, removed, parentId }\<close>.
\<close>

function removeNode :: "string \<Rightarrow> node list \<Rightarrow> string option
    \<Rightarrow> node list \<times> node option \<times> string option" where
  "removeNode nodeId [] parent = ([], None, parent)"
| "removeNode nodeId (n # ns) parent =
     (if idOf n = nodeId then (ns, Some n, parent)
      else (case removeNode nodeId (children n) (Some (idOf n)) of
              (newChildren, Some removed, childParent) \<Rightarrow>
                (Node (attrs n) newChildren # ns, Some removed, childParent)
            | (_, None, _) \<Rightarrow>
                (case removeNode nodeId ns parent of
                   (updated, removed, p) \<Rightarrow> (n # updated, removed, p))))"
  by pat_completeness auto
termination
proof -
  have "size_list size (children x) < Suc (size x + k)" for x :: node and k
    by (cases x) simp
  then show ?thesis
    by (relation "measure (\<lambda>(_, l, _). size_list size l)") auto
qed

definition outdentNode :: "string \<Rightarrow> node list \<Rightarrow> node list" where
  "outdentNode nodeId nodeList =
     (if list_ex (\<lambda>n. idOf n = nodeId) nodeList then nodeList
      else (case removeNode nodeId nodeList None of
              (updated, removed, parent) \<Rightarrow>
                (case removed of
                   None \<Rightarrow> nodeList
                 | Some r \<Rightarrow>
                     if \<not> truthy parent then nodeList
                     else (let grandParentId =
                                 (let g = findParentId updated (the parent) None
                                  in if truthy g then g else None);
                               nodeToInsert = Node ((attrs r)\<lparr>parentId := grandParentId\<rparr>) (children r)
                           in insertAfterNode (the parent) nodeToInsert updated))))"

text \<open>\<^verbatim>\<open>attachChildrenTo\<close> (lines 574-581).\<close>

function attachChildrenTo :: "string \<Rightarrow> node list \<Rightarrow> node list \<Rightarrow> node list" where
  "attachChildrenTo toId childrenToAdd list =
     map (\<lambda>n.
        if idOf n = toId then Node (attrs n) (children n @ childrenToAdd)
        else Node (attrs n) (attachChildrenTo toId childrenToAdd (children n))) list"
  by pat_completeness auto
termination
proof -
  have "size_list size (children x) < size_list size xs" if "x \<in> set xs" for x :: node and xs
  proof -
    have "size_list size (children x) < size x"
      by (cases x) simp
    also have "size x \<le> size_list size xs"
      using that by (rule size_list_estimation') simp
    finally show ?thesis .
  qed
  then show ?thesis
    by (relation "measure (\<lambda>(_, _, l). size_list size l)") auto
qed

section \<open>Visibility\<close>

text \<open>
  \<^verbatim>\<open>flattenVisibleNodes\<close> (lines 393-403): the accumulator \<^verbatim>\<open>acc\<close> receives the nodes in
  depth-first pre-order; the children of a node are visited when
  \<^verbatim>\<open>n.children && n.children.length && !n.collapsed\<close>.
\<close>

function flattenVisibleNodes :: "node list \<Rightarrow> node list" where
  "flattenVisibleNodes [] = []"
| "flattenVisibleNodes (n # ns) =
     n # (if children n \<noteq> [] \<and> collapsed (attrs n) \<noteq> Some True
          then flattenVisibleNodes (children n) else [])
       @ flattenVisibleNodes ns"
  by pat_completeness auto
termination
proof -
  have "size_list size (children x) < Suc (size x + k)" for x :: node and k
    by (cases x) simp
  then show ?thesis
    by (relation "measure (\<lambda>l. size_list size l)") auto
qed

text \<open>\<^verbatim>\<open>setNodeCollapsed\<close> (lines 679-689), the function \<^verbatim>\<open>apply\<close> on the previous state.\<close>

function setNodeCollapsed :: "string \<Rightarrow> bool \<Rightarrow> nat \<Rightarrow> node list \<Rightarrow> node list" where
  "setNodeCollapsed nodeId c now list =
     map (\<lambda>n.
        if idOf n = nodeId
          then Node ((attrs n)\<lparr>collapsed := Some c, updatedAt := now\<rparr>) (children n)
        else Node (attrs n) (setNodeCollapsed nodeId c now (children n))) list"
  by pat_completeness auto
termination
proof -
  have "size_list size (children x) < size_list size xs" if "x \<in> set xs" for x :: node and xs
  proof -
    have "size_list size (children x) < size x"
      by (cases x) simp
    also have "size x \<le> size_list size xs"
      using that by (rule size_list_estimation') simp
    finally show ?thesis .
  qed
  then show ?thesis
    by (relation "measure (\<lambda>(_, _, _, l). size_list size l)") auto
qed

text \<open>
  \<^verbatim>\<open>getCurrentNodes\<close> (lines 968-982): the whole forest, or the children of the node the
  view is zoomed into (\<^verbatim>\<open>focusedNodeId\<close>; \<^verbatim>\<open>null\<close> and \<^verbatim>\<open>''\<close> are falsy). The local
  \<^verbatim>\<open>findNode\<close> is the same search as \<^verbatim>\<open>findNodeById\<close>.
\<close>

definition getCurrentNodes :: "string option \<Rightarrow> node list \<Rightarrow> node list" where
  "getCurrentNodes focusedNodeId nodes =
     (if \<not> truthy focusedNodeId then nodes
      else (case findNodeById nodes (the focusedNodeId) of
              Some focusedNode \<Rightarrow> children focusedNode
            | None \<Rightarrow> nodes))"

section \<open>Style mutators\<close>

text \<open>
  \<^verbatim>\<open>updateNodeStyle\<close> (lines 622-633), the function \<^verbatim>\<open>apply\<close>; \<^verbatim>\<open>n.style || {}\<close> is the
  style of the node, or the style with no field set.
\<close>

definition emptyStyle :: style where
  "emptyStyle = \<lparr>bold = None, italic = None, underline = None, fsize = None\<rparr>"

definition styleOrEmpty :: "node \<Rightarrow> style" where
  "styleOrEmpty n = (case style (attrs n) of Some s \<Rightarrow> s | None \<Rightarrow> emptyStyle)"

function updateNodeStyle :: "string \<Rightarrow> (style \<Rightarrow> style) \<Rightarrow> nat \<Rightarrow> node list \<Rightarrow> node list" where
  "updateNodeStyle nodeId updater now list =
     map (\<lambda>n.
        if idOf n = nodeId
          then Node ((attrs n)\<lparr>style := Some (updater (styleOrEmpty n)), updatedAt := now\<rparr>) (children n)
        else Node (attrs n) (updateNodeStyle nodeId updater now (children n))) list"
  by pat_completeness auto
termination
proof -
  have "size_list size (children x) < size_list size xs" if "x \<in> set xs" for x :: node and xs
  proof -
    have "size_list size (children x) < size x"
      by (cases x) simp
    also have "size x \<le> size_list size xs"
      using that by (rule size_list_estimation') simp
    finally show ?thesis .
  qed
  then show ?thesis
    by (relation "measure (\<lambda>(_, _, _, l). size_list size l)") auto
qed







section \<open>Keyboard handling: Enter and Backspace\<close>


text \<open>
  The regular expressions of the merge branch. \<^verbatim>\<open>\s\<close> on 8-bit characters: tab, line feed,
  vertical tab, form feed, carriage return, space and the no-break space.
  \<^verbatim>\<open>html.replace(/<[^>]+>/g, '')\<close> deletes, from left to right, every \<open><\<close> that is followed by
  at least one character other than \<open>>\<close> and then a \<open>>\<close>, together with everything up to that \<open>>\<close>.
\<close>

definition isWhite :: "char \<Rightarrow> bool" where
  "isWhite c = ((of_char c :: nat) \<in> {9, 10, 11, 12, 13, 32, 160})"

function toPlain :: "string \<Rightarrow> string" where
  "toPlain [] = []"
| "toPlain (c # cs) =
     (if c = CHR ''<'' \<and> takeWhile (\<lambda>x. x \<noteq> CHR ''>'') cs \<noteq> []
           \<and> dropWhile (\<lambda>x. x \<noteq> CHR ''>'') cs \<noteq> []
      then toPlain (tl (dropWhile (\<lambda>x. x \<noteq> CHR ''>'') cs))
      else c # toPlain cs)"
  by pat_completeness auto
termination
proof -
  have "length (tl (dropWhile P cs)) < Suc (length cs)" for P :: "char \<Rightarrow> bool" and cs
    using length_dropWhile_le [of P cs] by simp
  then show ?thesis
    by (relation "measure length") auto
qed

definition endsNonWhite :: "string \<Rightarrow> bool" where
  "endsNonWhite s = (s \<noteq> [] \<and> \<not> isWhite (last s))"

definition startsNonWhite :: "string \<Rightarrow> bool" where
  "startsNonWhite s = (s \<noteq> [] \<and> \<not> isWhite (hd s))"

text \<open>\<^verbatim>\<open>getTotalNodeCount\<close> (line 826).\<close>

function getTotalNodeCount :: "node list \<Rightarrow> nat" where
  "getTotalNodeCount list = foldl (\<lambda>acc n. acc + 1 + getTotalNodeCount (children n)) 0 list"
  by pat_completeness auto
termination
proof -
  have "size_list size (children x) < size_list size xs" if "x \<in> set xs" for x :: node and xs
  proof -
    have "size_list size (children x) < size x"
      by (cases x) simp
    also have "size x \<le> size_list size xs"
      using that by (rule size_list_estimation') simp
    finally show ?thesis .
  qed
  then show ?thesis
    by (relation "measure (size_list size)") auto
qed

text \<open>
  The Backspace branch of \<^verbatim>\<open>handleKeyDown\<close> (lines 794-842). \<open>inputRefs\<close> gives the
  \<^verbatim>\<open>innerHTML\<close> of the editable element registered for an id (\<open>None\<close>: no element), \<open>atStart\<close>
  is \<^verbatim>\<open>isAtStart(div)\<close>, \<open>divText\<close> is \<^verbatim>\<open>getPlainText(div)\<close>. The result is the new value of
  \<^verbatim>\<open>nodes\<close>; when neither branch runs the state is not written.

  \<open>mergeIntoPrevious\<close> is the body of the merge branch (lines 801-817), entered with
  \<open>flat\<close> and \<open>idx > 0\<close>.
\<close>

definition htmlOf :: "(string \<Rightarrow> string option) \<Rightarrow> node list \<Rightarrow> string \<Rightarrow> string" where
  "htmlOf inputRefs nodes i =
     (case inputRefs i of
        Some innerHTML \<Rightarrow> innerHTML
      | None \<Rightarrow> (case findNodeById nodes i of Some n \<Rightarrow> content (attrs n) | None \<Rightarrow> []))"

definition mergeIntoPrevious ::
    "(string \<Rightarrow> string option) \<Rightarrow> nat \<Rightarrow> node list \<Rightarrow> nat \<Rightarrow> string \<Rightarrow> node list \<Rightarrow> node list" where
  "mergeIntoPrevious inputRefs now flat idx nodeId nodes =
     (let prevId = idOf (flat ! (idx - 1));
          prevHtml = htmlOf inputRefs nodes prevId;
          currHtml = htmlOf inputRefs nodes nodeId;
          prevPlain = toPlain prevHtml;
          currPlain = toPlain currHtml;
          needsSpace = (endsNonWhite prevPlain \<and> startsNonWhite currPlain);
          mergedHtml = (if needsSpace then prevHtml @ '' '' @ currHtml else prevHtml @ currHtml);
          currNodeObj = findNodeById nodes nodeId;
          withMerged = updateNodeContent prevId mergedHtml now nodes;
          withChildren = attachChildrenTo prevId
             (case currNodeObj of Some c \<Rightarrow> children c | None \<Rightarrow> []) withMerged;
          afterDelete = deleteNode nodeId withChildren
      in afterDelete)"

definition handleBackspace ::
    "(string \<Rightarrow> string option) \<Rightarrow> bool \<Rightarrow> string \<Rightarrow> string option \<Rightarrow> nat
      \<Rightarrow> string \<Rightarrow> node list \<Rightarrow> node list" where
  "handleBackspace inputRefs atStart divText focusedNodeId now nodeId nodes =
     (let flat = flattenVisibleNodes (getCurrentNodes focusedNodeId nodes);
          idx = findIndex (\<lambda>n. idOf n = nodeId) flat
      in if atStart \<and> (case idx of Some i \<Rightarrow> i > 0 | None \<Rightarrow> False)
         then mergeIntoPrevious inputRefs now flat (the idx) nodeId nodes
         else if list_all isWhite divText \<and> getTotalNodeCount nodes > 1
         then deleteNode nodeId nodes
         else nodes)"

section \<open>Persistence scheduler\<close>

text \<open>
  \<^verbatim>\<open>scheduleSave\<close> and \<^verbatim>\<open>handleContentChange\<close> (lines 845-859). The state is the \<^verbatim>\<open>nodes\<close> of
  the component, the pending timeout behind \<^verbatim>\<open>saveTimer.current\<close> (its due time and the
  \<^verbatim>\<open>data\<close> its callback closes over; \<open>None\<close> when \<^verbatim>\<open>saveTimer.current\<close> is \<^verbatim>\<open>null\<close>), and the
  log of the calls of \<^verbatim>\<open>saveNoteData\<close> (their arguments, oldest first). Time is in
  milliseconds; \<open>now\<close> is the time of the event being handled.

  \<^verbatim>\<open>window.setTimeout(f, 400)\<close> is modelled as: \<open>f\<close> runs once, when the clock reaches the due
  time, before any event that arrives at or after that time, unless \<^verbatim>\<open>clearTimeout\<close> removed
  it first. \<open>timerFires\<close> is the callback; \<open>advance now\<close> lets the clock reach \<open>now\<close>;
  \<open>runEdits\<close> feeds content edits of one node, each with its arrival time, to the handler.
\<close>

record editor =
  ed_nodes :: "node list"
  ed_saveTimer :: "(nat \<times> node list) option"
  ed_saves :: "node list list"



definition timerFires :: "editor \<Rightarrow> editor" where
  "timerFires ed =
     (case ed_saveTimer ed of
        Some (due, data) \<Rightarrow> ed\<lparr>ed_saves := ed_saves ed @ [data], ed_saveTimer := None\<rparr>
      | None \<Rightarrow> ed)"

definition advance :: "nat \<Rightarrow> editor \<Rightarrow> editor" where
  "advance now ed =
     (case ed_saveTimer ed of
        Some (due, data) \<Rightarrow> if due \<le> now then timerFires ed else ed
      | None \<Rightarrow> ed)"



section \<open>Specification vocabulary\<close>

text \<open>
  The definitions of this section are not part of the source: they are the vocabulary in
  which the properties of the operations are stated.

  \<open>ids\<close> lists the ids of a forest in document order (depth-first, pre-order, every node,
  collapsed or not); \<open>allNodes\<close> lists the nodes themselves in that order. A forest is well
  formed when \<open>ids\<close> is distinct (ids are unique by construction) and, where the
  truthiness tests of the source matter, when no id is the empty string.
\<close>

function ids :: "node list \<Rightarrow> string list" where
  "ids [] = []"
| "ids (n # ns) = idOf n # ids (children n) @ ids ns"
  by pat_completeness auto
termination
proof -
  have "size_list size (children x) < Suc (size x + k)" for x :: node and k
    by (cases x) simp
  then show ?thesis
    by (relation "measure (size_list size)") auto
qed

function allNodes :: "node list \<Rightarrow> node list" where
  "allNodes [] = []"
| "allNodes (n # ns) = n # allNodes (children n) @ allNodes ns"
  by pat_completeness auto
termination
proof -
  have "size_list size (children x) < Suc (size x + k)" for x :: node and k
    by (cases x) simp
  then show ?thesis
    by (relation "measure (size_list size)") auto
qed

text \<open>
  A position in a forest is a list of frames, outermost first: a frame \<open>(pre, a, post)\<close> is
  a node with fields \<open>a\<close>, with the siblings \<open>pre\<close> before it and \<open>post\<close> after it, whose
  children are the next level. \<open>plug ctx xs\<close> is the forest that has the sibling list \<open>xs\<close>
  at that position. "The node \<open>t\<close> has the siblings \<open>pre\<close> before it and \<open>post\<close> after it,
  at any depth" is \<open>plug ctx (pre @ t # post)\<close> for some \<open>ctx\<close>; \<open>ctxParent ctx\<close> is the id
  of the parent of that level (\<open>None\<close> at the root).
\<close>

type_synonym frame = "node list \<times> attrs \<times> node list"

fun plug :: "frame list \<Rightarrow> node list \<Rightarrow> node list" where
  "plug [] xs = xs"
| "plug ((pre, a, post) # ctx) xs = pre @ Node a (plug ctx xs) # post"

fun ctxParent :: "frame list \<Rightarrow> string option" where
  "ctxParent [] = None"
| "ctxParent ((pre, a, post) # ctx) =
     (case ctxParent ctx of None \<Rightarrow> Some (nid a) | Some q \<Rightarrow> Some q)"

text \<open>All ancestors of a position are expanded; no node of a forest is collapsed.\<close>

definition ctxVisible :: "frame list \<Rightarrow> bool" where
  "ctxVisible ctx = list_all (\<lambda>(pre, a, post). collapsed a \<noteq> Some True) ctx"

definition noneCollapsed :: "node list \<Rightarrow> bool" where
  "noneCollapsed f = list_all (\<lambda>n. collapsed (attrs n) \<noteq> Some True) (allNodes f)"

text \<open>
  The common scheme of \<^verbatim>\<open>updateNodeContent\<close>, \<^verbatim>\<open>attachChildrenTo\<close>, \<^verbatim>\<open>updateNodeStyle\<close> and
  \<^verbatim>\<open>setNodeCollapsed\<close>: replace every node with the given id by \<open>g\<close> of it, without
  descending into it. Each of the four is proved equal to an instance below.
\<close>

function applyAt :: "string \<Rightarrow> (node \<Rightarrow> node) \<Rightarrow> node list \<Rightarrow> node list" where
  "applyAt x g list =
     map (\<lambda>n. if idOf n = x then g n else Node (attrs n) (applyAt x g (children n))) list"
  by pat_completeness auto
termination
proof -
  have "size_list size (children x) < size_list size xs" if "x \<in> set xs" for x :: node and xs
  proof -
    have "size_list size (children x) < size x"
      by (cases x) simp
    also have "size x \<le> size_list size xs"
      using that by (rule size_list_estimation') simp
    finally show ?thesis .
  qed
  then show ?thesis
    by (relation "measure (\<lambda>(_, _, l). size_list size l)") auto
qed

text \<open>The shape of a forest: its ids with the parent/child relation and the sibling order.\<close>

datatype idTree = IdTree string "idTree list"

function shape :: "node list \<Rightarrow> idTree list" where
  "shape list = map (\<lambda>n. IdTree (idOf n) (shape (children n))) list"
  by pat_completeness auto
termination
proof -
  have "size_list size (children x) < size_list size xs" if "x \<in> set xs" for x :: node and xs
  proof -
    have "size_list size (children x) < size x"
      by (cases x) simp
    also have "size x \<le> size_list size xs"
      using that by (rule size_list_estimation') simp
    finally show ?thesis .
  qed
  then show ?thesis
    by (relation "measure (size_list size)") auto
qed

text \<open>A node with only the mandatory fields set, as the editor creates it; used in examples.\<close>

definition mkNode :: "string \<Rightarrow> string \<Rightarrow> node list \<Rightarrow> node" where
  "mkNode i c cs = Node \<lparr>nid = i, content = c, parentId = None, isChecklist = None, checked = None,
     style = None, collapsed = None, createdAt = 0, updatedAt = 0\<rparr> cs"

text \<open>
  For the scheduler: the snapshots of the forest after each edit of a sequence; a burst, in
  which every edit arrives before the timeout set by the previous one is due; and a
  sequence in which every edit arrives after that timeout is due.
\<close>

fun snapshots :: "string \<Rightarrow> (nat \<times> string) list \<Rightarrow> node list \<Rightarrow> node list list" where
  "snapshots nodeId [] nodes = []"
| "snapshots nodeId ((t, c) # es) nodes =
     updateNodeContent nodeId c t nodes # snapshots nodeId es (updateNodeContent nodeId c t nodes)"




section \<open>Lemmas\<close>

text \<open>
  The defining equations of the functions that recurse under \<open>map\<close> rewrite their own
  right-hand sides; they are taken out of the simplifier and replaced by equations for
  \<open>[]\<close> and \<open>#\<close>.
\<close>

declare applyAt.simps [simp del] deleteNode.simps [simp del] updateNodeContent.simps [simp del]
  attachChildrenTo.simps [simp del] updateNodeStyle.simps [simp del]
  setNodeCollapsed.simps [simp del] findAndIndent.simps [simp del] insertInList.simps [simp del]
  getTotalNodeCount.simps [simp del] shape.simps [simp del]

subsection \<open>Ids, contexts and the common update scheme\<close>

lemma ids_append [simp]: "ids (xs @ ys) = ids xs @ ids ys"
  by (induction xs rule: ids.induct) auto

lemma ids_Node [simp]: "ids (Node a cs # ns) = nid a # ids cs @ ids ns"
  by simp

lemma top_ids_subset: "idOf ` set xs \<subseteq> set (ids xs)"
  by (induction xs rule: ids.induct) auto

lemma applyAt_Nil [simp]: "applyAt x g [] = []"
  by (subst applyAt.simps) simp

lemma applyAt_Cons [simp]:
  "applyAt x g (n # ns) =
     (if idOf n = x then g n else Node (attrs n) (applyAt x g (children n))) # applyAt x g ns"
  by (simp add: applyAt.simps [of x g "n # ns"] applyAt.simps [of x g ns])

lemma applyAt_append [simp]: "applyAt x g (xs @ ys) = applyAt x g xs @ applyAt x g ys"
  by (induction xs) auto

lemma applyAt_notin: "x \<notin> set (ids f) \<Longrightarrow> applyAt x g f = f"
  by (induction f rule: ids.induct) auto

lemma applyAt_plug:
  "distinct (ids (plug ctx (pre @ t # post))) \<Longrightarrow> idOf t = x \<Longrightarrow>
   applyAt x g (plug ctx (pre @ t # post)) = plug ctx (pre @ g t # post)"
proof (induction ctx)
  case Nil
  then show ?case by (auto simp: applyAt_notin)
next
  case (Cons fr ctx)
  obtain pre' a post' where fr: "fr = (pre', a, post')" by (cases fr)
  have sub: "x \<in> set (ids (plug ctx (pre @ t # post)))"
    using Cons.prems(2) by (induction ctx) (auto split: prod.splits)
  have out: "x \<notin> set (ids pre')" "x \<notin> set (ids post')" "x \<noteq> nid a"
    using Cons.prems(1) sub unfolding fr by auto
  have "distinct (ids (plug ctx (pre @ t # post)))"
    using Cons.prems(1) unfolding fr by simp
  then show ?case using Cons.IH Cons.prems(2) out unfolding fr
    by (simp add: applyAt_notin)
qed






lemma setNodeCollapsed_applyAt:
  "setNodeCollapsed x c now f =
     applyAt x (\<lambda>n. Node ((attrs n)\<lparr>collapsed := Some c, updatedAt := now\<rparr>) (children n)) f"
proof (induction x c now f rule: setNodeCollapsed.induct)
  case (1 nodeId c now list)
  show ?case
    apply (subst setNodeCollapsed.simps)
    apply (subst applyAt.simps)
    apply (rule map_cong [OF refl])
    using 1 by auto
qed

lemma deleteNode_Nil [simp]: "deleteNode d [] = []"
  by (subst deleteNode.simps) simp

lemma deleteNode_Cons [simp]:
  "deleteNode d (n # ns) =
     (if idOf n = d then deleteNode d ns
      else Node (attrs n) (deleteNode d (children n)) # deleteNode d ns)"
  by (simp add: deleteNode.simps [of d "n # ns"] deleteNode.simps [of d ns])

lemma deleteNode_append [simp]: "deleteNode d (xs @ ys) = deleteNode d xs @ deleteNode d ys"
  by (induction xs) auto



lemma findIndex_None: "findIndex P xs = None \<longleftrightarrow> (\<forall>x\<in>set xs. \<not> P x)"
  by (induction xs) auto

lemma findIndex_append:
  "\<forall>x\<in>set pre. \<not> P x \<Longrightarrow> P t \<Longrightarrow> findIndex P (pre @ t # post) = Some (length pre)"
  by (induction pre) auto

lemma findIndex_Some:
  "findIndex P xs = Some i \<Longrightarrow> i < length xs \<and> P (xs ! i) \<and> (\<forall>j<i. \<not> P (xs ! j))"
proof (induction xs arbitrary: i)
  case Nil
  then show ?case by simp
next
  case (Cons x xs)
  show ?case
  proof (cases "P x")
    case True
    then show ?thesis using Cons.prems by simp
  next
    case False
    then obtain k where k: "findIndex P xs = Some k" "i = Suc k"
      using Cons.prems by auto
    from Cons.IH [OF k(1)] False k(2) show ?thesis
      by (auto simp: nth_Cons split: nat.splits)
  qed
qed

lemma ids_children_subset: "n \<in> set f \<Longrightarrow> set (ids (children n)) \<subseteq> set (ids f)"
  by (induction f rule: ids.induct) auto

lemma map_children_id: "map (\<lambda>n. Node (attrs n) (children n)) f = f"
  by (induction f) auto

subsection \<open>findNodeById\<close>


lemma find_Some: "findNodeById f x = Some n \<Longrightarrow> idOf n = x \<and> x \<in> set (ids f)"
  by (induction f rule: ids.induct) (auto split: if_splits option.splits)


lemma in_ids_plug: "set (ids xs) \<subseteq> set (ids (plug ctx xs))"
  by (induction ctx) auto

lemma distinct_plug_inner: "distinct (ids (plug ctx xs)) \<Longrightarrow> distinct (ids xs)"
  by (induction ctx) auto



lemma find_in_ids: "x \<in> set (ids f) \<Longrightarrow> \<exists>n. findNodeById f x = Some n"
  by (induction f rule: ids.induct) (auto split: option.splits)

subsection \<open>findAndIndent\<close>

lemma indent_notin: "x \<notin> set (ids f) \<Longrightarrow> findAndIndent x f = f"
proof (induction x f rule: findAndIndent.induct)
  case (1 x nodes)
  have none: "findIndex (\<lambda>n. idOf n = x) nodes = None"
    using "1.prems" top_ids_subset [of nodes] by (auto simp: findIndex_None)
  have "findAndIndent x nodes = map (\<lambda>node. Node (attrs node) (findAndIndent x (children node))) nodes"
    by (subst findAndIndent.simps) (simp add: none)
  also have "\<dots> = map (\<lambda>node. Node (attrs node) (children node)) nodes"
  proof (rule map_cong [OF refl])
    fix node assume mem: "node \<in> set nodes"
    then have "x \<notin> set (ids (children node))"
      using "1.prems" ids_children_subset by blast
    with none mem have "findAndIndent x (children node) = children node"
      by (rule "1.IH"(1))
    then show "Node (attrs node) (findAndIndent x (children node)) = Node (attrs node) (children node)"
      by simp
  qed
  finally show ?case by (simp add: map_children_id)
qed

lemma indent_map_notin:
  "x \<notin> set (ids f) \<Longrightarrow> map (\<lambda>node. Node (attrs node) (findAndIndent x (children node))) f = f"
proof -
  assume a: "x \<notin> set (ids f)"
  have "map (\<lambda>node. Node (attrs node) (findAndIndent x (children node))) f
        = map (\<lambda>node. Node (attrs node) (children node)) f"
    apply (rule map_cong [OF refl])
    using a ids_children_subset indent_notin by fastforce
  then show ?thesis by (simp add: map_children_id)
qed

lemma indent_here:
  assumes "\<forall>n\<in>set pre. idOf n \<noteq> x" "idOf p \<noteq> x" "idOf t = x"
  shows "findAndIndent x (pre @ p # t # post) =
           pre @ Node (attrs p) (children p @ [Node ((attrs t)\<lparr>parentId := Some (idOf p)\<rparr>) (children t)]) # post"
proof -
  have idx: "findIndex (\<lambda>n. idOf n = x) ((pre @ [p]) @ t # post) = Some (length (pre @ [p]))"
    by (rule findIndex_append) (use assms in auto)
  show ?thesis
    apply (subst findAndIndent.simps)
    using idx by (simp add: nth_append list_update_append)
qed

lemma indent_first:
  assumes "idOf t = x" "x \<notin> set (ids (children t))" "x \<notin> set (ids post)"
  shows "findAndIndent x (t # post) = t # post"
proof -
  have "findAndIndent x (t # post) =
          map (\<lambda>node. Node (attrs node) (findAndIndent x (children node))) (t # post)"
    by (subst findAndIndent.simps) (simp add: assms(1))
  then show ?thesis using assms by (simp add: indent_notin indent_map_notin)
qed

lemma indent_descend:
  assumes "x \<notin> set (ids pre)" "nid a \<noteq> x" "x \<notin> set (ids post)"
  shows "findAndIndent x (pre @ Node a cs # post) = pre @ Node a (findAndIndent x cs) # post"
proof -
  have none: "findIndex (\<lambda>n. idOf n = x) (pre @ Node a cs # post) = None"
    using assms top_ids_subset [of pre] top_ids_subset [of post] by (auto simp: findIndex_None)
  have "findAndIndent x (pre @ Node a cs # post) =
          map (\<lambda>node. Node (attrs node) (findAndIndent x (children node))) (pre @ Node a cs # post)"
    by (subst findAndIndent.simps) (simp add: none)
  then show ?thesis using assms by (simp add: indent_map_notin)
qed

subsection \<open>Contexts\<close>

lemma plug_snoc: "plug (ctx @ [(pre, a, post)]) xs = plug ctx (pre @ Node a xs # post)"
  by (induction ctx) auto

lemma ctxParent_snoc [simp]: "ctxParent (ctx @ [(pre, a, post)]) = Some (nid a)"
  by (induction ctx) auto

lemma ctxParent_in_ids: "ctxParent ctx = Some q \<Longrightarrow> q \<in> set (ids (plug ctx xs))"
  by (induction ctx) (auto split: option.splits)

lemma plug_frame_facts:
  assumes "distinct (ids (plug ((pre', a, post') # ctx) xs))" "x \<in> set (ids xs)"
  shows "x \<notin> set (ids pre')" "x \<noteq> nid a" "x \<notin> set (ids post')" "distinct (ids (plug ctx xs))"
    "x \<in> set (ids (plug ctx xs))"
  using assms in_ids_plug [of xs ctx] by auto

lemma distinct_plug_replace:
  "distinct (ids (plug ctx xs)) \<Longrightarrow> distinct (ids ys) \<Longrightarrow> set (ids ys) \<subseteq> set (ids xs) \<Longrightarrow>
   distinct (ids (plug ctx ys)) \<and> set (ids (plug ctx ys)) \<subseteq> set (ids (plug ctx xs))"
proof (induction ctx)
  case Nil
  then show ?case by simp
next
  case (Cons fr ctx)
  obtain pre' a post' where fr: "fr = (pre', a, post')" by (cases fr)
  have d: "distinct (ids (plug ctx xs))" using Cons.prems(1) unfolding fr by simp
  from Cons.IH [OF d Cons.prems(2,3)]
  have ih: "distinct (ids (plug ctx ys))" "set (ids (plug ctx ys)) \<subseteq> set (ids (plug ctx xs))"
    by auto
  show ?case using Cons.prems(1) ih unfolding fr by auto
qed

lemma ids_plug_cong: "ids xs = ids ys \<Longrightarrow> ids (plug ctx xs) = ids (plug ctx ys)"
  by (induction ctx) auto

lemma top_ids_distinct:
  "distinct (ids pre @ ids (t # post)) \<Longrightarrow> \<forall>n\<in>set pre. idOf n \<noteq> idOf t"
  using top_ids_subset [of pre] by auto

lemma not_top_plug:
  "ctx \<noteq> [] \<Longrightarrow> distinct (ids (plug ctx xs)) \<Longrightarrow> x \<in> set (ids xs) \<Longrightarrow>
   \<not> list_ex (\<lambda>n. idOf n = x) (plug ctx xs)"
proof (cases ctx)
  case Nil
  assume "ctx \<noteq> []" with Nil show ?thesis by simp
next
  case (Cons fr rest)
  assume d: "distinct (ids (plug ctx xs))" and x: "x \<in> set (ids xs)"
  obtain pre' a post' where fr: "fr = (pre', a, post')" by (cases fr)
  from plug_frame_facts [OF d [unfolded Cons fr] x]
  show ?thesis unfolding Cons fr
    using top_ids_subset [of pre'] top_ids_subset [of post'] by (auto simp: list_ex_iff)
qed

subsection \<open>indent on a context\<close>

lemma indent_plug:
  "distinct (ids (plug ctx (pre @ p # t # post))) \<Longrightarrow>
   findAndIndent (idOf t) (plug ctx (pre @ p # t # post)) =
     plug ctx (pre @ Node (attrs p) (children p @ [Node ((attrs t)\<lparr>parentId := Some (idOf p)\<rparr>) (children t)]) # post)"
proof (induction ctx)
  case Nil
  then have "\<forall>n\<in>set pre. idOf n \<noteq> idOf t" "idOf p \<noteq> idOf t"
    using top_ids_subset [of pre] by auto
  then show ?case by (simp add: indent_here)
next
  case (Cons fr ctx)
  obtain pre' a post' where fr: "fr = (pre', a, post')" by (cases fr)
  have x: "idOf t \<in> set (ids (pre @ p # t # post))" by simp
  from plug_frame_facts [OF Cons.prems [unfolded fr] x] Cons.IH
  show ?case unfolding fr by (simp add: indent_descend)
qed

lemma indent_first_plug:
  "distinct (ids (plug ctx (t # post))) \<Longrightarrow>
   findAndIndent (idOf t) (plug ctx (t # post)) = plug ctx (t # post)"
proof (induction ctx)
  case Nil
  then show ?case by (simp add: indent_first)
next
  case (Cons fr ctx)
  obtain pre' a post' where fr: "fr = (pre', a, post')" by (cases fr)
  have x: "idOf t \<in> set (ids (t # post))" by simp
  from plug_frame_facts [OF Cons.prems [unfolded fr] x] Cons.IH
  show ?case unfolding fr by (simp add: indent_descend)
qed

subsection \<open>insertInList\<close>

lemma insert_notin: "x \<notin> set (ids f) \<Longrightarrow> insertInList x n f = f"
proof (induction x n f rule: insertInList.induct)
  case (1 x n nodes)
  have none: "findIndex (\<lambda>n. idOf n = x) nodes = None"
    using "1.prems" top_ids_subset [of nodes] by (auto simp: findIndex_None)
  have "insertInList x n nodes = map (\<lambda>node. Node (attrs node) (insertInList x n (children node))) nodes"
    by (subst insertInList.simps) (simp add: none)
  also have "\<dots> = map (\<lambda>node. Node (attrs node) (children node)) nodes"
  proof (rule map_cong [OF refl])
    fix node assume mem: "node \<in> set nodes"
    then have "x \<notin> set (ids (children node))"
      using "1.prems" ids_children_subset by blast
    with none mem have "insertInList x n (children node) = children node"
      by (rule "1.IH")
    then show "Node (attrs node) (insertInList x n (children node)) = Node (attrs node) (children node)"
      by simp
  qed
  finally show ?case by (simp add: map_children_id)
qed

lemma insert_map_notin:
  "x \<notin> set (ids f) \<Longrightarrow> map (\<lambda>node. Node (attrs node) (insertInList x n (children node))) f = f"
proof -
  assume a: "x \<notin> set (ids f)"
  have "map (\<lambda>node. Node (attrs node) (insertInList x n (children node))) f
        = map (\<lambda>node. Node (attrs node) (children node)) f"
    apply (rule map_cong [OF refl])
    using a ids_children_subset insert_notin by fastforce
  then show ?thesis by (simp add: map_children_id)
qed

lemma insert_here:
  assumes "\<forall>n\<in>set pre. idOf n \<noteq> x" "idOf t = x"
  shows "insertInList x n (pre @ t # post) = pre @ t # n # post"
proof -
  have idx: "findIndex (\<lambda>n. idOf n = x) (pre @ t # post) = Some (length pre)"
    by (rule findIndex_append) (use assms in auto)
  show ?thesis
    by (subst insertInList.simps) (simp add: idx)
qed

lemma insert_descend:
  assumes "x \<notin> set (ids pre)" "nid a \<noteq> x" "x \<notin> set (ids post)"
  shows "insertInList x n (pre @ Node a cs # post) = pre @ Node a (insertInList x n cs) # post"
proof -
  have none: "findIndex (\<lambda>n. idOf n = x) (pre @ Node a cs # post) = None"
    using assms top_ids_subset [of pre] top_ids_subset [of post] by (auto simp: findIndex_None)
  have "insertInList x n (pre @ Node a cs # post) =
          map (\<lambda>node. Node (attrs node) (insertInList x n (children node))) (pre @ Node a cs # post)"
    by (subst insertInList.simps) (simp add: none)
  then show ?thesis using assms by (simp add: insert_map_notin)
qed

lemma insert_plug:
  "distinct (ids (plug ctx (pre @ t # post))) \<Longrightarrow>
   insertInList (idOf t) n (plug ctx (pre @ t # post)) = plug ctx (pre @ t # n # post)"
proof (induction ctx)
  case Nil
  then have "\<forall>n\<in>set pre. idOf n \<noteq> idOf t"
    using top_ids_subset [of pre] by auto
  then show ?case by (simp add: insert_here)
next
  case (Cons fr ctx)
  obtain pre' a post' where fr: "fr = (pre', a, post')" by (cases fr)
  have x: "idOf t \<in> set (ids (pre @ t # post))" by simp
  from plug_frame_facts [OF Cons.prems [unfolded fr] x] Cons.IH
  show ?case unfolding fr by (simp add: insert_descend)
qed

subsection \<open>removeNode\<close>

lemma remove_notin: "x \<notin> set (ids f) \<Longrightarrow> removeNode x f p = (f, None, p)"
  by (induction f arbitrary: p rule: ids.induct) auto

lemma remove_append_notin:
  "x \<notin> set (ids pre) \<Longrightarrow>
   removeNode x (pre @ ys) p = (case removeNode x ys p of (u, r, q) \<Rightarrow> (pre @ u, r, q))"
  by (induction pre arbitrary: p rule: ids.induct) (auto simp: remove_notin split: prod.splits)

lemma remove_plug:
  "distinct (ids (plug ctx (pre @ t # post))) \<Longrightarrow>
   removeNode (idOf t) (plug ctx (pre @ t # post)) p =
     (plug ctx (pre @ post), Some t, (case ctxParent ctx of None \<Rightarrow> p | Some q \<Rightarrow> Some q))"
proof (induction ctx arbitrary: p)
  case Nil
  then have "idOf t \<notin> set (ids pre)" by auto
  then show ?case by (simp add: remove_append_notin)
next
  case (Cons fr ctx)
  obtain pre' a post' where fr: "fr = (pre', a, post')" by (cases fr)
  have x: "idOf t \<in> set (ids (pre @ t # post))" by simp
  note f = plug_frame_facts [OF Cons.prems [unfolded fr] x]
  show ?case unfolding fr using f Cons.IH [OF f(4), of "Some (nid a)"]
    by (simp add: remove_append_notin split: option.splits)
qed

subsection \<open>findParentId\<close>

lemma fp_notin: "x \<notin> set (ids f) \<Longrightarrow> findParentId f x p = None"
  by (induction f arbitrary: p rule: ids.induct) auto

lemma fp_append_notin: "x \<notin> set (ids pre) \<Longrightarrow> findParentId (pre @ ys) x p = findParentId ys x p"
  by (induction pre arbitrary: p rule: ids.induct) (auto simp: fp_notin)

lemma fp_plug:
  "distinct (ids (plug ctx (pre @ t # post))) \<Longrightarrow> [] \<notin> set (ids (plug ctx (pre @ t # post))) \<Longrightarrow>
   findParentId (plug ctx (pre @ t # post)) (idOf t) p =
     (case ctxParent ctx of None \<Rightarrow> (if truthy p then p else None) | Some q \<Rightarrow> Some q)"
proof (induction ctx arbitrary: p)
  case Nil
  then have "idOf t \<notin> set (ids pre)" by auto
  then show ?case by (simp add: fp_append_notin)
next
  case (Cons fr ctx)
  obtain pre' a post' where fr: "fr = (pre', a, post')" by (cases fr)
  have x: "idOf t \<in> set (ids (pre @ t # post))" by simp
  note f = plug_frame_facts [OF Cons.prems(1) [unfolded fr] x]
  have ne: "[] \<notin> set (ids (plug ctx (pre @ t # post)))" "nid a \<noteq> []"
    using Cons.prems(2) unfolding fr by auto
  have q: "ctxParent ctx = Some q \<Longrightarrow> q \<noteq> []" for q
    using ctxParent_in_ids [of ctx q "pre @ t # post"] ne(1) by auto
  show ?case unfolding fr using f ne q Cons.IH [OF f(4) ne(1), of "Some (nid a)"]
    by (auto simp: fp_append_notin Let_def split: option.splits)
qed

subsection \<open>outdent on a context\<close>

lemma outdent_plug:
  assumes d: "distinct (ids (plug ctx (pre @ Node a (cpre @ t # cpost) # post)))"
    and ne: "[] \<notin> set (ids (plug ctx (pre @ Node a (cpre @ t # cpost) # post)))"
  shows "outdentNode (idOf t) (plug ctx (pre @ Node a (cpre @ t # cpost) # post)) =
           plug ctx (pre @ Node a (cpre @ cpost)
                       # Node ((attrs t)\<lparr>parentId := ctxParent ctx\<rparr>) (children t) # post)"
proof -
  let ?F = "plug ctx (pre @ Node a (cpre @ t # cpost) # post)"
  let ?ctx' = "ctx @ [(pre, a, post)]"
  let ?U = "plug ctx (pre @ Node a (cpre @ cpost) # post)"
  have F: "?F = plug ?ctx' (cpre @ t # cpost)" by (simp add: plug_snoc)
  have d': "distinct (ids (plug ?ctx' (cpre @ t # cpost)))" using d F by simp
  have x: "idOf t \<in> set (ids (cpre @ t # cpost))" by simp
  have root: "\<not> list_ex (\<lambda>n. idOf n = idOf t) ?F"
    unfolding F by (rule not_top_plug [OF _ d' x]) simp
  have rem: "removeNode (idOf t) ?F None = (?U, Some t, Some (nid a))"
    unfolding F using remove_plug [OF d', of None] by (simp add: plug_snoc)
  have a_in: "nid a \<in> set (ids ?F)"
    using in_ids_plug [of "pre @ Node a (cpre @ t # cpost) # post" ctx] by auto
  then have a_ne: "nid a \<noteq> []" using ne by auto
  have dU: "distinct (ids ?U) \<and> set (ids ?U) \<subseteq> set (ids ?F)"
    by (rule distinct_plug_replace [OF d]) (use distinct_plug_inner [OF d] in auto)
  then have neU: "[] \<notin> set (ids ?U)" using ne by auto
  have fp: "findParentId ?U (nid a) None = ctxParent ctx"
    using fp_plug [of ctx pre "Node a (cpre @ cpost)" post None] dU neU
    by (simp split: option.splits)
  have tr: "(if truthy (ctxParent ctx) then ctxParent ctx else None) = ctxParent ctx"
    using ctxParent_in_ids [of ctx _ "pre @ Node a (cpre @ t # cpost) # post"] ne
    by (cases "ctxParent ctx") auto
  have ins: "insertInList (nid a) n ?U = plug ctx (pre @ Node a (cpre @ cpost) # n # post)" for n
    using insert_plug [of ctx pre "Node a (cpre @ cpost)" post n] dU by simp
  show ?thesis
    using root rem a_ne fp tr ins
    by (simp add: outdentNode_def insertAfterNode_def Let_def)
qed

lemma outdent_root: "idOf t = x \<Longrightarrow> outdentNode x (pre @ t # post) = pre @ t # post"
  by (auto simp: outdentNode_def list_ex_iff)

subsection \<open>Shape, counting and the visible list\<close>

lemma shape_Nil [simp]: "shape [] = []"
  by (subst shape.simps) simp

lemma shape_Cons [simp]: "shape (n # ns) = IdTree (idOf n) (shape (children n)) # shape ns"
  by (simp add: shape.simps [of "n # ns"] shape.simps [of ns])

lemma shape_append [simp]: "shape (xs @ ys) = shape xs @ shape ys"
  by (induction xs) auto

lemma shape_plug_cong: "shape xs = shape ys \<Longrightarrow> shape (plug ctx xs) = shape (plug ctx ys)"
  by (induction ctx) auto

lemma allNodes_append [simp]: "allNodes (xs @ ys) = allNodes xs @ allNodes ys"
  by (induction xs rule: allNodes.induct) auto

lemma flat_append [simp]:
  "flattenVisibleNodes (xs @ ys) = flattenVisibleNodes xs @ flattenVisibleNodes ys"
  by (induction xs rule: flattenVisibleNodes.induct) auto


lemma count_foldl: "foldl (\<lambda>acc n. acc + 1 + g n) k xs = k + foldl (\<lambda>acc n. acc + 1 + g n) (0::nat) xs"
proof (induction xs arbitrary: k)
  case Nil
  then show ?case by simp
next
  case (Cons x xs)
  show ?case
    using Cons [of "k + 1 + g x"] Cons [of "0 + 1 + g x"] by simp
qed

lemma count_Nil [simp]: "getTotalNodeCount [] = 0"
  by (subst getTotalNodeCount.simps) simp

lemma count_Cons [simp]:
  "getTotalNodeCount (n # ns) = 1 + getTotalNodeCount (children n) + getTotalNodeCount ns"
proof -
  let ?F = "\<lambda>acc n. acc + 1 + getTotalNodeCount (children n)"
  have "getTotalNodeCount (n # ns) = foldl ?F 0 (n # ns)"
    by (rule getTotalNodeCount.simps)
  also have "\<dots> = foldl ?F (1 + getTotalNodeCount (children n)) ns"
    by simp
  also have "\<dots> = (1 + getTotalNodeCount (children n)) + foldl ?F 0 ns"
    by (rule count_foldl [of "\<lambda>n. getTotalNodeCount (children n)"])
  also have "foldl ?F 0 ns = getTotalNodeCount ns"
    by (rule getTotalNodeCount.simps [symmetric])
  finally show ?thesis .
qed

lemma count_allNodes: "getTotalNodeCount f = length (allNodes f)"
  by (induction f rule: allNodes.induct) auto

lemma flat_noneCollapsed: "noneCollapsed f \<Longrightarrow> flattenVisibleNodes f = allNodes f"
  by (induction f rule: allNodes.induct) (auto simp: noneCollapsed_def)

lemma plug_nonempty: "xs \<noteq> [] \<Longrightarrow> plug ctx xs \<noteq> []"
  by (cases ctx) auto

lemma length_flat_plug:
  "ctxVisible ctx \<Longrightarrow> xs \<noteq> [] \<Longrightarrow> ys \<noteq> [] \<Longrightarrow>
   length (flattenVisibleNodes (plug ctx xs)) + length (flattenVisibleNodes ys) =
   length (flattenVisibleNodes (plug ctx ys)) + length (flattenVisibleNodes xs)"
proof (induction ctx)
  case Nil
  then show ?case by simp
next
  case (Cons fr ctx)
  obtain pre' a post' where fr: "fr = (pre', a, post')" by (cases fr)
  have v: "ctxVisible ctx" "collapsed a \<noteq> Some True"
    using Cons.prems(1) unfolding fr by (auto simp: ctxVisible_def)
  show ?case unfolding fr
    using Cons.IH [OF v(1) Cons.prems(2,3)] v(2) plug_nonempty [OF Cons.prems(2), of ctx]
      plug_nonempty [OF Cons.prems(3), of ctx]
    by simp
qed


subsection \<open>The visible order and the merge\<close>


















lemma plug_complete:
  "findNodeById f x = Some t \<Longrightarrow> \<exists>ctx pre post. f = plug ctx (pre @ t # post)"
proof (induction f rule: ids.induct)
  case 1
  then show ?case by simp
next
  case (2 m ms)
  show ?case
  proof (cases "idOf m = x")
    case True
    then have "t = m" using "2.prems" by simp
    then have "m # ms = plug [] ([] @ t # ms)" by simp
    then show ?thesis by blast
  next
    case False
    show ?thesis
    proof (cases "findNodeById (children m) x")
      case (Some k)
      then have "findNodeById (children m) x = Some t" using "2.prems" False by simp
      from "2.IH"(1) [OF this] obtain ctx pre post where "children m = plug ctx (pre @ t # post)"
        by blast
      then have "m # ms = plug (([], attrs m, ms) # ctx) (pre @ t # post)"
        by (cases m) simp
      then show ?thesis by blast
    next
      case None
      then have "findNodeById ms x = Some t" using "2.prems" False by simp
      from "2.IH"(2) [OF this] obtain ctx pre post where p: "ms = plug ctx (pre @ t # post)"
        by blast
      show ?thesis
      proof (cases ctx)
        case Nil
        then have "m # ms = plug [] ((m # pre) @ t # post)" using p by simp
        then show ?thesis by blast
      next
        case (Cons fr rest)
        obtain pre' a post' where fr: "fr = (pre', a, post')" by (cases fr)
        have "m # ms = plug ((m # pre', a, post') # rest) (pre @ t # post)"
          using p Cons fr by simp
        then show ?thesis by blast
      qed
    qed
  qed
qed

lemma plug_complete_ids:
  "x \<in> set (ids f) \<Longrightarrow> \<exists>ctx pre t post. f = plug ctx (pre @ t # post) \<and> idOf t = x"
proof -
  assume "x \<in> set (ids f)"
  then obtain t where t: "findNodeById f x = Some t" using find_in_ids by blast
  then have "idOf t = x" using find_Some by blast
  with plug_complete [OF t] show ?thesis by blast
qed

lemma visible_in_flat:
  "ctxVisible ctx \<Longrightarrow> t \<in> set (flattenVisibleNodes (plug ctx (pre @ t # post)))"
proof (induction ctx)
  case Nil
  then show ?case by simp
next
  case (Cons fr ctx)
  obtain pre' a post' where fr: "fr = (pre', a, post')" by (cases fr)
  have v: "ctxVisible ctx" "collapsed a \<noteq> Some True"
    using Cons.prems unfolding fr by (auto simp: ctxVisible_def)
  have "plug ctx (pre @ t # post) \<noteq> []" by (rule plug_nonempty) simp
  then show ?case unfolding fr using Cons.IH [OF v(1)] v(2) by simp
qed







subsection \<open>The scheduler\<close>

lemma snapshots_Nil_iff [simp]: "snapshots x es f = [] \<longleftrightarrow> es = []"
  by (induction x es f rule: snapshots.induct) auto

lemma advance_nodes [simp]: "ed_nodes (advance T ed) = ed_nodes ed"
  by (simp add: advance_def timerFires_def split: option.splits)






section \<open>The claims\<close>

text \<open>
  The operations are characterised on forests of the form \<open>plug ctx (pre @ t # post)\<close>: the
  target \<open>t\<close> at any depth, with the siblings \<open>pre\<close> before it and \<open>post\<close> after it. By
  \<open>plug_complete\<close> every forest that contains a node is of this form, so these statements
  cover every forest and every node in it. Ids are unique by construction (\<^verbatim>\<open>uuidv4()\<close>);
  the hypothesis \<open>distinct (ids forest)\<close> says so.
\<close>

subsection \<open>C1: merge into the previous node\<close>




subsection \<open>C2: split at the caret\<close>



subsection \<open>C3: indent\<close>

text \<open>
  Claim C3. \<^verbatim>\<open>indentNode(nodeId)\<close> on a forest with unique ids: when the target \<open>t\<close> has a
  previous sibling \<open>p\<close> at its level (at any depth), the result is the same forest with \<open>t\<close>
  removed from its level and appended, with all its children, as the last child of \<open>p\<close>
  (its advisory \<open>parentId\<close> is set to the id of \<open>p\<close>); when \<open>t\<close> is the first node of its
  level, the forest is unchanged.
\<close>

theorem indent_spec:
  "(distinct (ids (plug ctx (pre @ p # t # post))) \<longrightarrow>
      indentNode (idOf t) (plug ctx (pre @ p # t # post)) =
        plug ctx (pre @ Node (attrs p)
                    (children p @ [Node ((attrs t)\<lparr>parentId := Some (idOf p)\<rparr>) (children t)]) # post)) \<and>
   (distinct (ids (plug ctx (t # post))) \<longrightarrow>
      indentNode (idOf t) (plug ctx (t # post)) = plug ctx (t # post))"
  by (simp add: indentNode_def indent_plug indent_first_plug)

theorem indent_spec_witness:
  "distinct (ids [mkNode ''r'' ''root''
       [mkNode ''a'' ''foo'' [mkNode ''x'' ''child'' []], mkNode ''b'' ''bar'' []]]) \<and>
   indentNode ''b'' [mkNode ''r'' ''root''
       [mkNode ''a'' ''foo'' [mkNode ''x'' ''child'' []], mkNode ''b'' ''bar'' []]]
     = [mkNode ''r'' ''root''
       [mkNode ''a'' ''foo'' [mkNode ''x'' ''child'' [],
          Node ((attrs (mkNode ''b'' ''bar'' []))\<lparr>parentId := Some ''a''\<rparr>) []]]] \<and>
   distinct (ids [mkNode ''r'' ''root'' [mkNode ''b'' ''bar'' []]]) \<and>
   indentNode ''b'' [mkNode ''r'' ''root'' [mkNode ''b'' ''bar'' []]]
     = [mkNode ''r'' ''root'' [mkNode ''b'' ''bar'' []]]"
  using indent_spec [where ctx = "[([], attrs (mkNode ''r'' ''root'' []), [])]"
      and pre = "[]" and p = "mkNode ''a'' ''foo'' [mkNode ''x'' ''child'' []]"
      and t = "mkNode ''b'' ''bar'' []" and post = "[]"]
  by (simp add: mkNode_def)

subsection \<open>C4: outdent\<close>

text \<open>
  Claim C4. \<^verbatim>\<open>outdentNode(nodeId)\<close> on a forest with unique, non-empty ids: when the target
  \<open>t\<close> is a child of a node with fields \<open>a\<close> (at any depth), the result is the same forest
  with \<open>t\<close> removed from the children of that node and inserted, with its own children, as
  the sibling immediately after it; the siblings \<open>cpost\<close> that followed \<open>t\<close> stay children of
  the former parent. The advisory \<open>parentId\<close> of \<open>t\<close> becomes the id of its new parent. When
  the target is a root node, the forest is unchanged.

  Ids are produced by \<^verbatim>\<open>uuidv4()\<close> and are never empty; the source tests the parent id for
  truthiness (\<^verbatim>\<open>!parentId\<close>), which is why the hypothesis is needed.
\<close>

theorem outdent_spec:
  "(distinct (ids (plug ctx (pre @ Node a (cpre @ t # cpost) # post))) \<and>
    [] \<notin> set (ids (plug ctx (pre @ Node a (cpre @ t # cpost) # post))) \<longrightarrow>
      outdentNode (idOf t) (plug ctx (pre @ Node a (cpre @ t # cpost) # post)) =
        plug ctx (pre @ Node a (cpre @ cpost)
                    # Node ((attrs t)\<lparr>parentId := ctxParent ctx\<rparr>) (children t) # post)) \<and>
   outdentNode (idOf r) (rpre @ r # rpost) = rpre @ r # rpost"
  by (simp add: outdent_plug outdent_root)

theorem outdent_spec_witness:
  "distinct (ids [mkNode ''a'' ''foo'' [mkNode ''c'' ''x'' [mkNode ''e'' ''y'' []], mkNode ''d'' ''z'' []]]) \<and>
   [] \<notin> set (ids [mkNode ''a'' ''foo'' [mkNode ''c'' ''x'' [mkNode ''e'' ''y'' []], mkNode ''d'' ''z'' []]]) \<and>
   outdentNode ''c'' [mkNode ''a'' ''foo'' [mkNode ''c'' ''x'' [mkNode ''e'' ''y'' []], mkNode ''d'' ''z'' []]]
     = [mkNode ''a'' ''foo'' [mkNode ''d'' ''z'' []], mkNode ''c'' ''x'' [mkNode ''e'' ''y'' []]] \<and>
   outdentNode ''a'' [mkNode ''a'' ''foo'' [mkNode ''c'' ''x'' []]]
     = [mkNode ''a'' ''foo'' [mkNode ''c'' ''x'' []]]"
  using outdent_spec [where ctx = "[]" and pre = "[]" and a = "attrs (mkNode ''a'' ''foo'' [])"
      and cpre = "[]" and t = "mkNode ''c'' ''x'' [mkNode ''e'' ''y'' []]"
      and cpost = "[mkNode ''d'' ''z'' []]" and post = "[]"
      and r = "mkNode ''a'' ''foo'' [mkNode ''c'' ''x'' []]" and rpre = "[]" and rpost = "[]"]
  by (simp add: mkNode_def)

subsection \<open>C5: indent, then outdent\<close>

text \<open>
  Claim C5. On a forest with unique, non-empty ids, for a node \<open>t\<close> that has a previous
  sibling \<open>p\<close> at its level: \<^verbatim>\<open>outdentNode(nodeId)\<close> after \<^verbatim>\<open>indentNode(nodeId)\<close> gives back
  the original forest, every node at its original place with its original fields and
  children, except that the advisory \<open>parentId\<close> field of \<open>t\<close> now holds the id of its
  parent; in particular the shape (ids, parent/child relation, sibling order) is the
  original one.
\<close>

theorem indent_outdent_inverse:
  assumes d: "distinct (ids (plug ctx (pre @ p # t # post)))"
    and ne: "[] \<notin> set (ids (plug ctx (pre @ p # t # post)))"
  shows "outdentNode (idOf t) (indentNode (idOf t) (plug ctx (pre @ p # t # post))) =
           plug ctx (pre @ p # Node ((attrs t)\<lparr>parentId := ctxParent ctx\<rparr>) (children t) # post) \<and>
         shape (outdentNode (idOf t) (indentNode (idOf t) (plug ctx (pre @ p # t # post)))) =
           shape (plug ctx (pre @ p # t # post))"
proof -
  let ?t1 = "Node ((attrs t)\<lparr>parentId := Some (idOf p)\<rparr>) (children t)"
  let ?I = "plug ctx (pre @ Node (attrs p) (children p @ ?t1 # []) # post)"
  have ind: "indentNode (idOf t) (plug ctx (pre @ p # t # post)) = ?I"
    using d by (simp add: indentNode_def indent_plug)
  have idsI: "ids ?I = ids (plug ctx (pre @ p # t # post))"
    by (rule ids_plug_cong) (cases p, simp)
  have out: "outdentNode (idOf ?t1) ?I =
      plug ctx (pre @ Node (attrs p) (children p @ [])
                  # Node ((attrs ?t1)\<lparr>parentId := ctxParent ctx\<rparr>) (children ?t1) # post)"
    by (rule outdent_plug) (use d ne idsI in simp_all)
  have eq: "outdentNode (idOf t) (indentNode (idOf t) (plug ctx (pre @ p # t # post))) =
           plug ctx (pre @ p # Node ((attrs t)\<lparr>parentId := ctxParent ctx\<rparr>) (children t) # post)"
    using out ind by simp
  show ?thesis unfolding eq
    by (auto intro!: shape_plug_cong)
qed

theorem indent_outdent_inverse_witness:
  "distinct (ids [mkNode ''r'' ''root''
       [mkNode ''a'' ''foo'' [mkNode ''x'' ''child'' []], mkNode ''b'' ''bar'' [], mkNode ''c'' ''baz'' []]]) \<and>
   [] \<notin> set (ids [mkNode ''r'' ''root''
       [mkNode ''a'' ''foo'' [mkNode ''x'' ''child'' []], mkNode ''b'' ''bar'' [], mkNode ''c'' ''baz'' []]]) \<and>
   outdentNode ''b'' (indentNode ''b'' [mkNode ''r'' ''root''
       [mkNode ''a'' ''foo'' [mkNode ''x'' ''child'' []], mkNode ''b'' ''bar'' [], mkNode ''c'' ''baz'' []]])
     = [mkNode ''r'' ''root''
       [mkNode ''a'' ''foo'' [mkNode ''x'' ''child'' []],
        Node ((attrs (mkNode ''b'' ''bar'' []))\<lparr>parentId := Some ''r''\<rparr>) [],
        mkNode ''c'' ''baz'' []]] \<and>
   shape (outdentNode ''b'' (indentNode ''b'' [mkNode ''r'' ''root''
       [mkNode ''a'' ''foo'' [mkNode ''x'' ''child'' []], mkNode ''b'' ''bar'' [], mkNode ''c'' ''baz'' []]]))
     = [IdTree ''r'' [IdTree ''a'' [IdTree ''x'' []], IdTree ''b'' [], IdTree ''c'' []]]"
  using indent_outdent_inverse [where ctx = "[([], attrs (mkNode ''r'' ''root'' []), [])]"
      and pre = "[]" and p = "mkNode ''a'' ''foo'' [mkNode ''x'' ''child'' []]"
      and t = "mkNode ''b'' ''bar'' []" and post = "[mkNode ''c'' ''baz'' []]"]
  by (simp add: mkNode_def)

subsection \<open>C6: collapsing and the visible list\<close>

text \<open>
  Claim C6, as stated, fails: collapsing a node removes from the flattened visible list
  only the descendants that were visible. In the forest \<open>a[b[c]]\<close> with \<open>b\<close> collapsed the
  visible list is \<open>a, b\<close>; collapsing \<open>a\<close> shortens it by one, while \<open>a\<close> has two descendants.
\<close>

theorem collapse_hidden_descendants_counterexample:
  "length (flattenVisibleNodes
      (setNodeCollapsed ''a'' True 1
         [mkNode ''a'' ''A''
            [Node \<lparr>nid = ''b'', content = ''B'', parentId = None, isChecklist = None, checked = None,
                    style = None, collapsed = Some True, createdAt = 0, updatedAt = 0\<rparr>
               [mkNode ''c'' ''C'' []]]]))
     + getTotalNodeCount
         [Node \<lparr>nid = ''b'', content = ''B'', parentId = None, isChecklist = None, checked = None,
                 style = None, collapsed = Some True, createdAt = 0, updatedAt = 0\<rparr>
            [mkNode ''c'' ''C'' []]]
   \<noteq> length (flattenVisibleNodes
        [mkNode ''a'' ''A''
            [Node \<lparr>nid = ''b'', content = ''B'', parentId = None, isChecklist = None, checked = None,
                    style = None, collapsed = Some True, createdAt = 0, updatedAt = 0\<rparr>
               [mkNode ''c'' ''C'' []]]])"
  by (simp add: mkNode_def setNodeCollapsed_applyAt)

text \<open>
  Claim C6, amended. On a forest with unique ids, for a node \<open>t\<close> whose ancestors are all
  expanded (so that \<open>t\<close> is in the flattened visible list) and that is itself expanded:
  setting its collapsed flag to true shortens the flattened visible list by exactly the
  length of the flattened visible list of its children (its visible descendants), which is
  the number of its descendants when none of them is collapsed; setting the flag back to
  false restores the original length.
\<close>

theorem collapse_visible_length:
  assumes d: "distinct (ids (plug ctx (pre @ t # post)))"
    and vis: "ctxVisible ctx"
    and ex: "collapsed (attrs t) \<noteq> Some True"
  shows "length (flattenVisibleNodes (setNodeCollapsed (idOf t) True now (plug ctx (pre @ t # post))))
           + length (flattenVisibleNodes (children t))
         = length (flattenVisibleNodes (plug ctx (pre @ t # post))) \<and>
         length (flattenVisibleNodes (setNodeCollapsed (idOf t) False now'
                    (setNodeCollapsed (idOf t) True now (plug ctx (pre @ t # post)))))
         = length (flattenVisibleNodes (plug ctx (pre @ t # post))) \<and>
         (noneCollapsed (children t) \<longrightarrow>
            length (flattenVisibleNodes (children t)) = getTotalNodeCount (children t))"
proof -
  let ?F = "plug ctx (pre @ t # post)"
  let ?t1 = "Node ((attrs t)\<lparr>collapsed := Some True, updatedAt := now\<rparr>) (children t)"
  let ?t2 = "Node ((attrs ?t1)\<lparr>collapsed := Some False, updatedAt := now'\<rparr>) (children ?t1)"
  have c1: "setNodeCollapsed (idOf t) True now ?F = plug ctx (pre @ ?t1 # post)"
    unfolding setNodeCollapsed_applyAt using d by (rule applyAt_plug) simp
  have "ids (plug ctx (pre @ ?t1 # post)) = ids ?F"
    by (rule ids_plug_cong) (cases t, simp)
  then have d1: "distinct (ids (plug ctx (pre @ ?t1 # post)))" using d by simp
  have c2: "setNodeCollapsed (idOf t) False now' (plug ctx (pre @ ?t1 # post)) = plug ctx (pre @ ?t2 # post)"
    unfolding setNodeCollapsed_applyAt using d1 by (rule applyAt_plug) simp
  have l1: "length (flattenVisibleNodes (plug ctx (pre @ ?t1 # post))) + length (flattenVisibleNodes (pre @ t # post))
      = length (flattenVisibleNodes ?F) + length (flattenVisibleNodes (pre @ ?t1 # post))"
    by (rule length_flat_plug [OF vis]) simp_all
  have l2: "length (flattenVisibleNodes (plug ctx (pre @ ?t2 # post))) + length (flattenVisibleNodes (pre @ t # post))
      = length (flattenVisibleNodes ?F) + length (flattenVisibleNodes (pre @ ?t2 # post))"
    by (rule length_flat_plug [OF vis]) simp_all
  have a: "length (flattenVisibleNodes (plug ctx (pre @ ?t1 # post))) + length (flattenVisibleNodes (children t))
      = length (flattenVisibleNodes ?F)"
    using l1 ex by (cases "children t = []") simp_all
  have b: "length (flattenVisibleNodes (plug ctx (pre @ ?t2 # post))) = length (flattenVisibleNodes ?F)"
    using l2 ex by (cases "children t = []") simp_all
  show ?thesis
    using a b by (simp add: c1 c2 flat_noneCollapsed count_allNodes)
qed

theorem collapse_visible_length_witness:
  "distinct (ids [mkNode ''a'' ''foo'' [mkNode ''b'' ''x'' [], mkNode ''c'' ''y'' []], mkNode ''d'' ''z'' []]) \<and>
   ctxVisible [] \<and>
   collapsed (attrs (mkNode ''a'' ''foo'' [mkNode ''b'' ''x'' [], mkNode ''c'' ''y'' []])) \<noteq> Some True \<and>
   length (flattenVisibleNodes (setNodeCollapsed ''a'' True 3
      [mkNode ''a'' ''foo'' [mkNode ''b'' ''x'' [], mkNode ''c'' ''y'' []], mkNode ''d'' ''z'' []])) + 2 = 4 \<and>
   length (flattenVisibleNodes (setNodeCollapsed ''a'' False 4 (setNodeCollapsed ''a'' True 3
      [mkNode ''a'' ''foo'' [mkNode ''b'' ''x'' [], mkNode ''c'' ''y'' []], mkNode ''d'' ''z'' []]))) = 4 \<and>
   noneCollapsed [mkNode ''b'' ''x'' [], mkNode ''c'' ''y'' []] \<and>
   getTotalNodeCount [mkNode ''b'' ''x'' [], mkNode ''c'' ''y'' []] = 2"
  using collapse_visible_length [where ctx = "[]" and pre = "[]"
      and t = "mkNode ''a'' ''foo'' [mkNode ''b'' ''x'' [], mkNode ''c'' ''y'' []]"
      and post = "[mkNode ''d'' ''z'' []]" and now = 3 and now' = 4]
  by (simp add: mkNode_def ctxVisible_def noneCollapsed_def)

subsection \<open>C7: the forest never becomes empty\<close>

text \<open>
  Claim C7 says that no Backspace deletion brings the total node count to 0. The guard of
  the empty-bullet branch counts all nodes (\<^verbatim>\<open>getTotalNodeCount(nodes) > 1\<close>), but
  \<^verbatim>\<open>deleteNode\<close> removes the node together with its subtree: in the forest whose only root
  \<open>a\<close> is empty and has the child \<open>b\<close>, the count is 2, the guard passes, and Backspace in
  \<open>a\<close> (first visible node, so the merge branch does not run) leaves the empty forest.
\<close>

theorem backspace_empties_forest:
  "getTotalNodeCount [mkNode ''a'' [] [mkNode ''b'' ''x'' []]] = 2 \<and>
   handleBackspace (\<lambda>_. None) True [] None 1 ''a'' [mkNode ''a'' [] [mkNode ''b'' ''x'' []]] = [] \<and>
   getTotalNodeCount
     (handleBackspace (\<lambda>_. None) True [] None 1 ''a'' [mkNode ''a'' [] [mkNode ''b'' ''x'' []]]) = 0"
  by (simp add: mkNode_def handleBackspace_def getCurrentNodes_def)

subsection \<open>C8: debounced saves\<close>



subsection \<open>C9: insertAfter\<close>

text \<open>
  Claim C9. \<^verbatim>\<open>insertAfterNode(afterNodeId, newNode, forest)\<close>: when no node of the forest has
  the id \<open>afterNodeId\<close>, the result is the forest itself (a silent no-op; the function is
  total, nothing is raised). When the forest (with unique ids) contains the node \<open>t\<close> with
  that id at any depth, with siblings \<open>pre\<close> before and \<open>post\<close> after it, the result is the
  same forest with \<open>newNode\<close> inserted between \<open>t\<close> and \<open>post\<close>, at the depth of \<open>t\<close>.
\<close>

theorem insertAfter_spec:
  "(afterNodeId \<notin> set (ids forest) \<longrightarrow> insertAfterNode afterNodeId newNode forest = forest) \<and>
   (distinct (ids (plug ctx (pre @ t # post))) \<longrightarrow>
      insertAfterNode (idOf t) newNode (plug ctx (pre @ t # post)) = plug ctx (pre @ t # newNode # post))"
  by (simp add: insertAfterNode_def insert_notin insert_plug)

theorem insertAfter_spec_witness:
  "''z'' \<notin> set (ids [mkNode ''a'' ''foo'' [mkNode ''c'' ''x'' []]]) \<and>
   insertAfterNode ''z'' (mkNode ''b'' ''bar'' []) [mkNode ''a'' ''foo'' [mkNode ''c'' ''x'' []]]
     = [mkNode ''a'' ''foo'' [mkNode ''c'' ''x'' []]] \<and>
   distinct (ids [mkNode ''a'' ''foo'' [mkNode ''c'' ''x'' []]]) \<and>
   insertAfterNode ''c'' (mkNode ''b'' ''bar'' []) [mkNode ''a'' ''foo'' [mkNode ''c'' ''x'' []]]
     = [mkNode ''a'' ''foo'' [mkNode ''c'' ''x'' [], mkNode ''b'' ''bar'' []]]"
  using insertAfter_spec [where afterNodeId = "''z''"
      and forest = "[mkNode ''a'' ''foo'' [mkNode ''c'' ''x'' []]]"
      and newNode = "mkNode ''b'' ''bar'' []"
      and ctx = "[([], attrs (mkNode ''a'' ''foo'' []), [])]"
      and pre = "[]" and t = "mkNode ''c'' ''x'' []" and post = "[]"]
  by (simp add: mkNode_def)

subsection \<open>C10: font size steps\<close>



end
